theory Spec2Isabelle
  imports Main "HOL-Library.Word"
begin

section \<open>The confirmation height processor\<close>

text \<open>
  A shallow embedding of \<^verbatim>\<open>nano::confirmation_height_processor\<close> and of
  \<^verbatim>\<open>nano::pending_confirmation_height\<close>. Heights and block counts are
  \<^verbatim>\<open>uint64_t\<close> and are modelled as 64-bit words, so the subtractions of the source
  wrap as they do there. Block hashes and accounts are 256-bit values of which the code
  only uses equality and \<^verbatim>\<open>is_zero\<close>.

  The model follows the release build: the debug-only \<^verbatim>\<open>assert\<close> lines are not
  executed, while every \<^verbatim>\<open>release_assert\<close> is a branch that ends in a fault.
  Read and write transactions are handles on the store and carry no data of their own;
  the model reads and writes the store directly.
\<close>

subsection \<open>Data\<close>

type_synonym u64 = "64 word"
type_synonym block_hash = "256 word"
type_synonym account = "256 word"

definition is_zero :: "block_hash \<Rightarrow> bool" where
  "is_zero h = (h = 0)"

text \<open>\<^verbatim>\<open>std::numeric_limits<uint64_t>::max ()\<close>, the marker of line 319.\<close>

definition height_not_set :: u64 where
  "height_not_set = - 1"

text \<open>What the processor reads of a block: \<^verbatim>\<open>previous ()\<close>, \<^verbatim>\<open>source ()\<close>,
  \<^verbatim>\<open>link ()\<close>, and the height kept in its sideband.\<close>

record block =
  previous :: block_hash
  source :: block_hash
  link :: block_hash

record block_sideband =
  sideband_height :: u64

record account_info =
  confirmation_height :: u64

record conf_height_details =
  account :: account
  hash :: block_hash
  height :: u64
  num_blocks_confirmed :: u64

record receive_source_pair =
  receive_details :: conf_height_details
  source_hash :: block_hash

record confirmed_iterated_pair =
  confirmed_height :: u64
  iterated_height :: u64

record pending_confirmation_height =
  pending :: "block_hash set"
  current_hash :: block_hash

datatype fault = Release_assert_failed

datatype stat_detail = Invalid_block | Blocks_confirmed

datatype stat_event =
    Stat_inc stat_detail
  | Stat_add stat_detail u64

text \<open>
  The collaborators the processor only reads, and its constants, which are declared
  outside the translated file: the block table of the store with the three lookups
  derived from it, the epoch link, the two batch sizes, and the value of the atomic
  flag \<^verbatim>\<open>stopped\<close> at each of its reads at line 248 (numbered from 0 within one call
  of \<^verbatim>\<open>add_confirmation_height\<close>).
\<close>

record env =
  block_get :: "block_hash \<Rightarrow> (block \<times> block_sideband) option"
  block_account_height :: "block_hash \<Rightarrow> u64"
  block_account :: "block_hash \<Rightarrow> account"
  source_exists :: "block_hash \<Rightarrow> bool"
  epoch_link :: block_hash
  batch_write_size :: nat
  batch_read_size :: u64
  stopped_at :: "nat \<Rightarrow> bool"

text \<open>
  What the processor changes: the account table of the store, its member
  \<^verbatim>\<open>receive_source_pairs\<close> (a vector used as a stack; the head of the list is
  \<^verbatim>\<open>back ()\<close>) with the counter kept beside it, the pending queue shared with the
  election code, and the calls made on the collaborators, in order:
  \<^verbatim>\<open>active.confirm_block\<close> (the hash of the block passed), \<^verbatim>\<open>logger.always_log\<close>
  (the text and the hash appended to it), the statistics calls (all of type
  \<^verbatim>\<open>confirmation_height\<close>, the one \<^verbatim>\<open>add\<close> with direction \<^verbatim>\<open>in\<close>), and the
  deque handed to each call of \<^verbatim>\<open>write_pending\<close>.
\<close>

record processor =
  accounts :: "account \<Rightarrow> account_info option"
  receive_source_pairs :: "receive_source_pair list"
  receive_source_pairs_size :: u64
  pending_confirmations :: pending_confirmation_height
  confirm_block_calls :: "block_hash list"
  log_lines :: "(string \<times> block_hash) list"
  stat_events :: "stat_event list"
  write_pending_calls :: "conf_height_details list list"

subsection \<open>The pending queue\<close>

definition is_processing_block :: "pending_confirmation_height \<Rightarrow> block_hash \<Rightarrow> bool" where
  "is_processing_block q hash_a =
     (if \<not> is_zero (current_hash q) \<and> current_hash q = hash_a then True
      else hash_a \<in> pending q)"

definition current :: "pending_confirmation_height \<Rightarrow> block_hash" where
  "current q = current_hash q"

definition add :: "block_hash \<Rightarrow> processor \<Rightarrow> processor" where
  "add hash_a p =
     p\<lparr>pending_confirmations :=
         (pending_confirmations p)\<lparr>pending := insert hash_a (pending (pending_confirmations p))\<rparr>\<rparr>"

subsection \<open>\<^verbatim>\<open>collect_unconfirmed_receive_and_sources_for_account\<close>\<close>

text \<open>
  The local variables of the loop of lines 321 to 361. \<open>iterations\<close> is not a variable of
  the source: it counts the executions of the loop body.
\<close>

record collect_locals =
  c_hash :: block_hash
  num_to_confirm :: u64
  next_height :: u64
  iterations :: nat

text \<open>Lines 343 and 366: assignment to \<^verbatim>\<open>receive_source_pairs.back ()\<close>. On an empty
  vector the source has no defined behaviour; both call sites exclude it.\<close>

fun set_back_num_blocks_confirmed ::
  "(conf_height_details \<Rightarrow> u64) \<Rightarrow> receive_source_pair list \<Rightarrow> receive_source_pair list" where
  "set_back_num_blocks_confirmed f [] = []"
| "set_back_num_blocks_confirmed f (back # rest) =
     back\<lparr>receive_details := (receive_details back)\<lparr>num_blocks_confirmed := f (receive_details back)\<rparr>\<rparr> # rest"

text \<open>One execution of the loop body, lines 323 to 360.\<close>

definition collect_body ::
  "env \<Rightarrow> account \<Rightarrow> u64 \<Rightarrow> collect_locals \<times> processor \<Rightarrow> collect_locals \<times> processor" where
  "collect_body e account_a confirmation_height_a = (\<lambda>(l, p).
     (case block_get e (c_hash l) of
        None \<Rightarrow>
          (l\<lparr>num_to_confirm := num_to_confirm l - 1, iterations := Suc (iterations l)\<rparr>, p)
      | Some (blk, sideband) \<Rightarrow>
          let p1 = (if \<not> is_processing_block (pending_confirmations p) (c_hash l)
                    then p\<lparr>confirm_block_calls := confirm_block_calls p @ [c_hash l]\<rparr>
                    else p);
              src = (if is_zero (source blk) then link blk else source blk);
              block_height = confirmation_height_a + num_to_confirm l;
              (l2, p2) =
                (if \<not> is_zero src \<and> src \<noteq> epoch_link e \<and> source_exists e src
                 then
                   let pairs1 = (if next_height l \<noteq> height_not_set
                                 then set_back_num_blocks_confirmed
                                        (\<lambda>_. next_height l - block_height) (receive_source_pairs p1)
                                 else receive_source_pairs p1);
                       pushed = \<lparr>receive_details =
                                   \<lparr>account = account_a, hash = c_hash l, height = block_height,
                                    num_blocks_confirmed = height_not_set\<rparr>,
                                 source_hash = src\<rparr>
                   in (l\<lparr>next_height := block_height\<rparr>,
                       p1\<lparr>receive_source_pairs := pushed # pairs1,
                          receive_source_pairs_size := receive_source_pairs_size p1 + 1\<rparr>)
                 else (l, p1))
          in (l2\<lparr>c_hash := previous blk, num_to_confirm := num_to_confirm l2 - 1,
                  iterations := Suc (iterations l2)\<rparr>, p2)))"

function collect_loop ::
  "env \<Rightarrow> account \<Rightarrow> u64 \<Rightarrow> collect_locals \<times> processor \<Rightarrow> collect_locals \<times> processor" where
  "collect_loop e account_a confirmation_height_a lp =
     (if 0 < num_to_confirm (fst lp) \<and> \<not> is_zero (c_hash (fst lp))
      then collect_loop e account_a confirmation_height_a
             (collect_body e account_a confirmation_height_a lp)
      else lp)"
  by pat_completeness auto
termination
proof (relation "measure (\<lambda>(e, a, c, lp). unat (num_to_confirm (fst lp)))")
  show "wf (measure (\<lambda>(e, a, c, lp). unat (num_to_confirm (fst lp))))"
    by simp
next
  fix e :: env and account_a :: account and confirmation_height_a :: u64
    and lp :: "collect_locals \<times> processor"
  assume "0 < num_to_confirm (fst lp) \<and> \<not> is_zero (c_hash (fst lp))"
  then have pos: "0 < unat (num_to_confirm (fst lp))"
    by (simp add: word_greater_zero_iff unat_gt_0)
  obtain l p where lp: "lp = (l, p)"
    by (cases lp)
  have "num_to_confirm (fst (collect_body e account_a confirmation_height_a (l, p)))
          = num_to_confirm l - 1"
    by (simp add: collect_body_def Let_def split: option.splits prod.splits)
  with pos lp show "((e, account_a, confirmation_height_a,
           collect_body e account_a confirmation_height_a lp),
          (e, account_a, confirmation_height_a, lp))
         \<in> measure (\<lambda>(e, a, c, lp). unat (num_to_confirm (fst lp)))"
    by (simp add: unat_minus_one word_greater_zero_iff unat_gt_0)
qed

text \<open>The whole function: the loop from the initial locals of lines 315 to 320, then the
  assignment of lines 364 to 367.\<close>

definition collect_unconfirmed_receive_and_sources_for_account ::
  "env \<Rightarrow> u64 \<Rightarrow> u64 \<Rightarrow> block_hash \<Rightarrow> account \<Rightarrow> processor \<Rightarrow> processor" where
  "collect_unconfirmed_receive_and_sources_for_account e block_height_a confirmation_height_a
       hash_a account_a p =
     (let (l, p1) = collect_loop e account_a confirmation_height_a
                      (\<lparr>c_hash = hash_a, num_to_confirm = block_height_a - confirmation_height_a,
                        next_height = height_not_set, iterations = 0\<rparr>, p)
      in if receive_source_pairs p1 \<noteq> []
         then p1\<lparr>receive_source_pairs :=
                   set_back_num_blocks_confirmed (\<lambda>d. height d - confirmation_height_a)
                     (receive_source_pairs p1)\<rparr>
         else p1)"

subsection \<open>\<^verbatim>\<open>write_pending\<close>\<close>

text \<open>
  The inner loop of lines 270 to 308 on the deque (its front is the head of the list), the
  running total and \<^verbatim>\<open>num_accounts_processed\<close>. The flag of the result is set when the
  function returns \<^verbatim>\<open>true\<close> at line 291. The total is an \<^verbatim>\<open>int64_t\<close> from which a
  \<^verbatim>\<open>uint64_t\<close> is subtracted: a 64-bit word, read as signed at line 266.
\<close>

fun write_batch ::
  "env \<Rightarrow> processor \<Rightarrow> conf_height_details list \<Rightarrow> u64 \<Rightarrow> nat
     \<Rightarrow> fault + (processor \<times> conf_height_details list \<times> u64 \<times> bool)" where
  "write_batch e p [] total_count num_accounts_processed = Inr (p, [], total_count, False)"
| "write_batch e p (pend # rest) total_count num_accounts_processed =
     (case accounts p (account pend) of
        None \<Rightarrow> Inl Release_assert_failed
      | Some info \<Rightarrow>
          (case (if confirmation_height info < height pend
                 then (case block_get e (hash pend) of
                         None \<Rightarrow> None
                       | Some blk \<Rightarrow>
                           Some (p\<lparr>stat_events := stat_events p @
                                     [Stat_add Blocks_confirmed
                                        (height pend - confirmation_height info)],
                                   accounts := (accounts p)(account pend \<mapsto>
                                     info\<lparr>confirmation_height := height pend\<rparr>)\<rparr>))
                 else Some p) of
             None \<Rightarrow>
               Inr (p\<lparr>log_lines := log_lines p @
                         [(''Failed to write confirmation height for: '', hash pend)],
                       stat_events := stat_events p @ [Stat_inc Invalid_block]\<rparr>,
                    pend # rest, total_count, True)
           | Some p1 \<Rightarrow>
               let total1 = total_count - num_blocks_confirmed pend;
                   n1 = Suc num_accounts_processed
               in if batch_write_size e \<le> n1 then Inr (p1, rest, total1, False)
                  else write_batch e p1 rest total1 n1))"

partial_function (option) write_pending ::
  "env \<Rightarrow> processor \<Rightarrow> conf_height_details list \<Rightarrow> u64
     \<Rightarrow> (fault + (processor \<times> conf_height_details list \<times> bool)) option" where
  [code]: "write_pending e p all_pending_a total_pending_write_block_count =
     (if 0 <s total_pending_write_block_count
      then (case write_batch e p all_pending_a total_pending_write_block_count 0 of
              Inl f \<Rightarrow> Some (Inl f)
            | Inr (p1, all_pending1, total1, returned) \<Rightarrow>
                if returned then Some (Inr (p1, all_pending1, True))
                else write_pending e p1 all_pending1 total1)
      else Some (Inr (p, all_pending_a, False)))"

subsection \<open>\<^verbatim>\<open>add_confirmation_height\<close>\<close>

text \<open>
  The local variables that live across the iterations of the loop of lines 114 to 254.
  \<open>stop_reads\<close> is the number of reads of \<^verbatim>\<open>stopped\<close> made so far at line 248.
\<close>

record traversal =
  receive_details_opt :: "conf_height_details option"
  current_block :: block_hash
  pending_writes :: "conf_height_details list"
  confirmed_iterated_pairs :: "account \<rightharpoonup> confirmed_iterated_pair"
  stop_reads :: nat

text \<open>How an invocation leaves the loop: the \<^verbatim>\<open>break\<close> of line 242, the
  \<^verbatim>\<open>break\<close> of line 250, or the loop condition of line 254.\<close>

datatype exit_path = Write_error | Stop_requested | Loop_finished

text \<open>\<^verbatim>\<open>unordered_map::emplace\<close>: no effect on a key that is present.\<close>

definition emplace :: "('k \<rightharpoonup> 'v) \<Rightarrow> 'k \<Rightarrow> 'v \<Rightarrow> ('k \<rightharpoonup> 'v)" where
  "emplace m k v = (if m k = None then m(k \<mapsto> v) else m)"

text \<open>Lines 116 to 131.\<close>

definition select_frame :: "block_hash \<Rightarrow> processor \<Rightarrow> traversal \<Rightarrow> traversal" where
  "select_frame hash_a p t =
     (case receive_source_pairs p of
        back # rest \<Rightarrow>
          t\<lparr>receive_details_opt := Some (receive_details back), current_block := source_hash back\<rparr>
      | [] \<Rightarrow>
          (case receive_details_opt t of
             Some d \<Rightarrow> t\<lparr>current_block := hash_a, receive_details_opt := None\<rparr>
           | None \<Rightarrow> t))"

text \<open>Lines 136 to 150: \<^verbatim>\<open>confirmation_height\<close> and \<^verbatim>\<open>iterated_height\<close>.\<close>

definition known_heights :: "u64 \<Rightarrow> confirmed_iterated_pair option \<Rightarrow> u64 \<times> u64" where
  "known_heights stored account_it =
     (case account_it of
        None \<Rightarrow> (stored, stored)
      | Some pr \<Rightarrow>
          let (c, i) = (if stored < confirmed_height pr
                        then (confirmed_height pr, confirmed_height pr)
                        else (stored, stored))
          in (c, if i < iterated_height pr then iterated_height pr else i))"

text \<open>Lines 153 to 161.\<close>

definition descend ::
  "env \<Rightarrow> u64 \<Rightarrow> u64 \<Rightarrow> block_hash \<Rightarrow> account \<Rightarrow> processor \<Rightarrow> processor" where
  "descend e block_height iterated_height_l cur acct p =
     (if iterated_height_l < block_height
      then
        let p1 = (if 20000 < block_height - iterated_height_l
                  then p\<lparr>log_lines := log_lines p @
                    [(''Iterating over a large account chain for setting confirmation height. The top block: '', cur)]\<rparr>
                  else p)
        in collect_unconfirmed_receive_and_sources_for_account e block_height iterated_height_l
             cur acct p1
      else p)"

text \<open>Lines 190 to 208, for a set \<^verbatim>\<open>receive_details\<close>.\<close>

definition confirm_receive ::
  "conf_height_details \<Rightarrow> traversal \<Rightarrow> traversal" where
  "confirm_receive d t =
     (case confirmed_iterated_pairs t (account d) of
        Some pr \<Rightarrow>
          let d1 = d\<lparr>num_blocks_confirmed := height d - confirmed_height pr\<rparr>
          in t\<lparr>confirmed_iterated_pairs :=
                 (confirmed_iterated_pairs t)(account d \<mapsto> pr\<lparr>confirmed_height := height d\<rparr>),
               receive_details_opt := Some d1,
               pending_writes := pending_writes t @ [d1]\<rparr>
      | None \<Rightarrow>
          t\<lparr>confirmed_iterated_pairs :=
               emplace (confirmed_iterated_pairs t) (account d)
                 \<lparr>confirmed_height = height d, iterated_height = height d\<rparr>,
             pending_writes := pending_writes t @ [d]\<rparr>)"

text \<open>Lines 168 to 227. \<open>account_it\<close> is the result of the lookup of line 138.\<close>

definition record_writes ::
  "u64 \<Rightarrow> u64 \<Rightarrow> u64 \<Rightarrow> account \<Rightarrow> bool \<Rightarrow> processor \<times> traversal
     \<Rightarrow> processor \<times> traversal" where
  "record_writes block_height confirmation_height_l iterated_height_l acct
       confirmed_receives_pending = (\<lambda>(p, t).
     let account_it = confirmed_iterated_pairs t acct in
     if \<not> confirmed_receives_pending
     then
       let t1 = (if confirmation_height_l < block_height
                 then
                   (t\<lparr>confirmed_iterated_pairs :=
                       (case account_it of
                          Some pr \<Rightarrow>
                            (confirmed_iterated_pairs t)(acct \<mapsto>
                               (if iterated_height_l < block_height
                                then pr\<lparr>confirmed_height := block_height,
                                        iterated_height := block_height\<rparr>
                                else pr\<lparr>confirmed_height := block_height\<rparr>))
                        | None \<Rightarrow>
                            emplace (confirmed_iterated_pairs t) acct
                              \<lparr>confirmed_height = block_height, iterated_height = block_height\<rparr>),
                      pending_writes := pending_writes t @
                        [\<lparr>account = acct, hash = current_block t, height = block_height,
                          num_blocks_confirmed = block_height - confirmation_height_l\<rparr>]\<rparr>)
                 else t);
           t2 = (case receive_details_opt t1 of
                   Some d \<Rightarrow> confirm_receive d t1
                 | None \<Rightarrow> t1);
           p1 = (case receive_source_pairs p of
                   back # rest \<Rightarrow>
                     p\<lparr>receive_source_pairs := rest,
                       receive_source_pairs_size := receive_source_pairs_size p - 1\<rparr>
                 | [] \<Rightarrow> p)
       in (p1, t2)
     else if iterated_height_l < block_height
     then
       (p, t\<lparr>confirmed_iterated_pairs :=
              (case account_it of
                 Some pr \<Rightarrow> (confirmed_iterated_pairs t)(acct \<mapsto> pr\<lparr>iterated_height := block_height\<rparr>)
               | None \<Rightarrow>
                   emplace (confirmed_iterated_pairs t) acct
                     \<lparr>confirmed_height = confirmation_height_l, iterated_height = block_height\<rparr>)\<rparr>)
     else (p, t))"

text \<open>Lines 230 to 232.\<close>

definition total_pending_write_block_count :: "conf_height_details list \<Rightarrow> u64" where
  "total_pending_write_block_count ws = foldl (\<lambda>total_count d. total_count + num_blocks_confirmed d) 0 ws"

text \<open>Lines 248 to 251; an iteration that does not leave the loop yields no exit.\<close>

definition check_stopped ::
  "env \<Rightarrow> processor \<times> traversal \<Rightarrow> processor \<times> traversal \<times> exit_path option" where
  "check_stopped e = (\<lambda>(p, t).
     (p, t\<lparr>stop_reads := Suc (stop_reads t)\<rparr>,
      if stopped_at e (stop_reads t) then Some Stop_requested else None))"

text \<open>Lines 234 to 251.\<close>

definition flush ::
  "env \<Rightarrow> processor \<times> traversal
     \<Rightarrow> (fault + (processor \<times> traversal \<times> exit_path option)) option" where
  "flush e = (\<lambda>(p, t).
     if (batch_write_size e \<le> length (pending_writes t) \<or> receive_source_pairs p = [])
        \<and> pending_writes t \<noteq> []
     then
       (case write_pending e
               (p\<lparr>write_pending_calls := write_pending_calls p @ [pending_writes t]\<rparr>)
               (pending_writes t) (total_pending_write_block_count (pending_writes t)) of
          None \<Rightarrow> None
        | Some (Inl f) \<Rightarrow> Some (Inl f)
        | Some (Inr (p1, all_pending1, error)) \<Rightarrow>
            if error
            then Some (Inr (p1\<lparr>receive_source_pairs := [], receive_source_pairs_size := 0\<rparr>,
                            t\<lparr>pending_writes := all_pending1\<rparr>, Some Write_error))
            else Some (Inr (check_stopped e (p1, t\<lparr>pending_writes := all_pending1\<rparr>))))
     else Some (Inr (check_stopped e (p, t))))"

text \<open>One execution of the body of the \<^verbatim>\<open>do\<close> loop, lines 116 to 253.\<close>

definition iteration ::
  "env \<Rightarrow> block_hash \<Rightarrow> processor \<times> traversal
     \<Rightarrow> (fault + (processor \<times> traversal \<times> exit_path option)) option" where
  "iteration e hash_a = (\<lambda>(p, t0).
     let t = select_frame hash_a p t0;
         block_height = block_account_height e (current_block t);
         acct = block_account e (current_block t)
     in case accounts p acct of
          None \<Rightarrow> Some (Inl Release_assert_failed)
        | Some info \<Rightarrow>
            let (confirmation_height_l, iterated_height_l) =
                  known_heights (confirmation_height info) (confirmed_iterated_pairs t acct);
                count_before_receive = length (receive_source_pairs p);
                p1 = descend e block_height iterated_height_l (current_block t) acct p;
                confirmed_receives_pending =
                  (count_before_receive \<noteq> length (receive_source_pairs p1))
            in flush e (record_writes block_height confirmation_height_l iterated_height_l acct
                          confirmed_receives_pending (p1, t)))"

partial_function (option) traverse ::
  "env \<Rightarrow> block_hash \<Rightarrow> processor \<times> traversal
     \<Rightarrow> (fault + (processor \<times> traversal \<times> exit_path)) option" where
  [code]: "traverse e hash_a pt =
     (case iteration e hash_a pt of
        None \<Rightarrow> None
      | Some (Inl f) \<Rightarrow> Some (Inl f)
      | Some (Inr (p, t, Some ex)) \<Rightarrow> Some (Inr (p, t, ex))
      | Some (Inr (p, t, None)) \<Rightarrow>
          if receive_source_pairs p \<noteq> [] \<or> current_block t \<noteq> hash_a
          then traverse e hash_a (p, t)
          else Some (Inr (p, t, Loop_finished)))"

text \<open>The function, from the \<^verbatim>\<open>release_assert\<close> of line 109 on.\<close>

definition add_confirmation_height ::
  "env \<Rightarrow> block_hash \<Rightarrow> processor
     \<Rightarrow> (fault + (processor \<times> traversal \<times> exit_path)) option" where
  "add_confirmation_height e hash_a p =
     (if receive_source_pairs p \<noteq> [] then Some (Inl Release_assert_failed)
      else traverse e hash_a
             (p, \<lparr>receive_details_opt = None, current_block = hash_a, pending_writes = [],
                  confirmed_iterated_pairs = Map.empty, stop_reads = 0\<rparr>))"

subsection \<open>\<^verbatim>\<open>run\<close>\<close>

text \<open>
  One passage through lines 64 to 73 on a non-empty pending set. \<open>chosen\<close> is
  \<^verbatim>\<open>*pending.begin ()\<close>, some element of the unordered set.
\<close>

definition set_current_hash :: "block_hash \<Rightarrow> processor \<Rightarrow> processor" where
  "set_current_hash h p =
     p\<lparr>pending_confirmations := (pending_confirmations p)\<lparr>current_hash := h\<rparr>\<rparr>"

definition run_pending ::
  "env \<Rightarrow> block_hash \<Rightarrow> processor
     \<Rightarrow> (fault + (processor \<times> traversal \<times> exit_path)) option" where
  "run_pending e chosen p =
     (let q = pending_confirmations p;
          p1 = p\<lparr>pending_confirmations := \<lparr>pending = pending q - {chosen}, current_hash = chosen\<rparr>\<rparr>
      in case add_confirmation_height e chosen p1 of
           None \<Rightarrow> None
         | Some (Inl f) \<Rightarrow> Some (Inl f)
         | Some (Inr (p2, t, ex)) \<Rightarrow> Some (Inr (set_current_hash 0 p2, t, ex)))"

text \<open>
  The loop of lines 62 to 79 as the thread meets it. Between two tests of the loop
  condition either another thread calls \<^verbatim>\<open>add\<close> while the mutex is free, or the thread
  makes one passage through lines 64 to 73 on a non-empty pending set; the ledger and
  the reads of \<^verbatim>\<open>stopped\<close> during the passage are those of the given environment.
\<close>

datatype event = Added block_hash | Passage env block_hash

text \<open>
  The invocations of \<^verbatim>\<open>add_confirmation_height\<close> that the loop makes over a sequence of
  events, each with the processor on which it is entered (line 71). \<^verbatim>\<open>stopped\<close> is
  only ever set (line 51), so that after an invocation that left by the \<^verbatim>\<open>break\<close> of
  line 250 the loop condition of line 62 fails and there is no further invocation; none
  follows a failed \<^verbatim>\<open>release_assert\<close> either. A passage that names a hash which is not
  pending does not take place, and a call of \<^verbatim>\<open>add\<close> made while an invocation runs is
  placed before or after the invocation.
\<close>

fun invocations :: "event list \<Rightarrow> processor \<Rightarrow> (env \<times> block_hash \<times> processor) list" where
  "invocations [] p = []"
| "invocations (Added hash_a # evs) p = invocations evs (add hash_a p)"
| "invocations (Passage e chosen # evs) p =
     (if chosen \<in> pending (pending_confirmations p)
      then (e, chosen,
            p\<lparr>pending_confirmations :=
                \<lparr>pending = pending (pending_confirmations p) - {chosen}, current_hash = chosen\<rparr>\<rparr>)
           # (case run_pending e chosen p of
                Some (Inr (p2, t, ex)) \<Rightarrow>
                  if ex = Stop_requested then [] else invocations evs p2
              | _ \<Rightarrow> [])
      else invocations evs p)"

section \<open>Notions used in the statements\<close>

text \<open>The stored height of an account does not go down, and no account appears or
  disappears.\<close>

definition height_le :: "account_info option \<Rightarrow> account_info option \<Rightarrow> bool" where
  "height_le x y =
     (case x of
        None \<Rightarrow> y = None
      | Some i \<Rightarrow>
          (case y of None \<Rightarrow> False | Some j \<Rightarrow> confirmation_height i \<le> confirmation_height j))"

text \<open>
  The effect of the entries of a deque on the account table, one after the other, as
  \<^verbatim>\<open>write_pending\<close> handles them: an entry applies when its height is above the height
  stored at that moment, and it fails when it applies and its block is not in the store.
\<close>

definition entry_applies :: "(account \<Rightarrow> account_info option) \<Rightarrow> conf_height_details \<Rightarrow> bool" where
  "entry_applies st w =
     (case st (account w) of None \<Rightarrow> False | Some info \<Rightarrow> confirmation_height info < height w)"

definition apply_entry ::
  "(account \<Rightarrow> account_info option) \<Rightarrow> conf_height_details \<Rightarrow> (account \<Rightarrow> account_info option)" where
  "apply_entry st w =
     (case st (account w) of
        None \<Rightarrow> st
      | Some info \<Rightarrow>
          if confirmation_height info < height w
          then st(account w \<mapsto> info\<lparr>confirmation_height := height w\<rparr>)
          else st)"

definition entry_fails :: "env \<Rightarrow> (account \<Rightarrow> account_info option) \<Rightarrow> conf_height_details \<Rightarrow> bool" where
  "entry_fails e st w = (entry_applies st w \<and> block_get e (hash w) = None)"

fun no_failure :: "env \<Rightarrow> (account \<Rightarrow> account_info option) \<Rightarrow> conf_height_details list \<Rightarrow> bool" where
  "no_failure e st [] = True"
| "no_failure e st (w # ws) = (\<not> entry_fails e st w \<and> no_failure e (apply_entry st w) ws)"



text \<open>
  What is looked at after an invocation that returned: the stored heights of the listed
  accounts, the stack, the calls of \<^verbatim>\<open>confirm_block\<close>, the statistics, the deques
  handed to \<^verbatim>\<open>write_pending\<close>, the log, the writes still pending, and the way the
  loop was left.
\<close>

definition observe ::
  "account list \<Rightarrow> (fault + processor \<times> traversal \<times> exit_path) option
     \<Rightarrow> (u64 option list \<times> receive_source_pair list \<times> block_hash list \<times> stat_event list
          \<times> conf_height_details list list \<times> (string \<times> block_hash) list
          \<times> conf_height_details list \<times> exit_path) option" where
  "observe as r =
     (case r of
        Some (Inr (p, t, ex)) \<Rightarrow>
          Some (map (\<lambda>a. map_option confirmation_height (accounts p a)) as,
                receive_source_pairs p, confirm_block_calls p, stat_events p,
                write_pending_calls p, log_lines p, pending_writes t, ex)
      | _ \<Rightarrow> None)"

text \<open>Single components of the same, for an invocation that returned.\<close>

definition written ::
  "(fault + processor \<times> traversal \<times> exit_path) option \<Rightarrow> conf_height_details list list option" where
  "written r = (case r of Some (Inr (p, t, ex)) \<Rightarrow> Some (write_pending_calls p) | _ \<Rightarrow> None)"

definition confirm_calls ::
  "(fault + processor \<times> traversal \<times> exit_path) option \<Rightarrow> block_hash list option" where
  "confirm_calls r = (case r of Some (Inr (p, t, ex)) \<Rightarrow> Some (confirm_block_calls p) | _ \<Rightarrow> None)"

definition left_on_stack ::
  "(fault + processor \<times> traversal \<times> exit_path) option \<Rightarrow> receive_source_pair list option" where
  "left_on_stack r = (case r of Some (Inr (p, t, ex)) \<Rightarrow> Some (receive_source_pairs p) | _ \<Rightarrow> None)"


text \<open>The hash and the stack with which an invocation of the loop of \<^verbatim>\<open>run\<close> is entered.\<close>

definition entered :: "env \<times> block_hash \<times> processor \<Rightarrow> block_hash \<times> receive_source_pair list" where
  "entered = (\<lambda>(e, hash_a, p). (hash_a, receive_source_pairs p))"


subsection \<open>Ledgers of the scenarios\<close>

definition blk :: "block_hash \<Rightarrow> block_hash \<Rightarrow> u64 \<Rightarrow> block \<times> block_sideband" where
  "blk prev src h = (\<lparr>previous = prev, source = src, link = 0\<rparr>, \<lparr>sideband_height = h\<rparr>)"

text \<open>A processor at rest on the given account table, with the given queue.\<close>

definition processor_on ::
  "(account \<Rightarrow> account_info option) \<Rightarrow> pending_confirmation_height \<Rightarrow> processor" where
  "processor_on accts q =
     \<lparr>accounts = accts, receive_source_pairs = [], receive_source_pairs_size = 0,
      pending_confirmations = q, confirm_block_calls = [], log_lines = [], stat_events = [],
      write_pending_calls = []\<rparr>"

text \<open>
  The self-send: account 10 owns the blocks 1, 2 and 3 at the heights 1, 2 and 3; block 2
  is a send to the account itself and block 3 is the receive whose source is block 2.
\<close>

definition self_send_env :: env where
  "self_send_env =
     \<lparr>block_get = [1 \<mapsto> blk 0 0 1, 2 \<mapsto> blk 1 0 2, 3 \<mapsto> blk 2 2 3],
      block_account_height = (\<lambda>h. ucast h),
      block_account = (\<lambda>h. 10),
      source_exists = (\<lambda>h. h = 1 \<or> h = 2 \<or> h = 3),
      epoch_link = 99, batch_write_size = 4096, batch_read_size = 4096,
      stopped_at = (\<lambda>n. False)\<rparr>"

definition self_send_start :: processor where
  "self_send_start =
     processor_on [10 \<mapsto> \<lparr>confirmation_height = 1\<rparr>] \<lparr>pending = {}, current_hash = 3\<rparr>"

text \<open>The same ledger when \<^verbatim>\<open>stop\<close> has been called before the first read of the flag.\<close>

definition self_send_stopped_env :: env where
  "self_send_stopped_env = self_send_env\<lparr>stopped_at := (\<lambda>n. True)\<rparr>"

text \<open>
  One account, 10, with the blocks 1 to 100 at the heights 1 to 100, none of them a
  receive; block 1 is confirmed, and block 100 is the only hash in the pending set.
\<close>

definition chain_env :: env where
  "chain_env =
     \<lparr>block_get = (\<lambda>h. if 1 \<le> h \<and> h \<le> 100 then Some (blk (h - 1) 0 (ucast h)) else None),
      block_account_height = (\<lambda>h. ucast h),
      block_account = (\<lambda>h. 10),
      source_exists = (\<lambda>h. 1 \<le> h \<and> h \<le> 100),
      epoch_link = 999, batch_write_size = 4096, batch_read_size = 4096,
      stopped_at = (\<lambda>n. False)\<rparr>"

definition chain_start :: processor where
  "chain_start =
     processor_on [10 \<mapsto> \<lparr>confirmation_height = 1\<rparr>] \<lparr>pending = {100}, current_hash = 0\<rparr>"

text \<open>
  A send and its receive: account 10 owns the blocks 1, 2, 3 (block 3 is the send) and has
  the stored height 2; account 20 owns the blocks 11 to 15 at the heights 1 to 5, block 15
  is the receive of block 3, and its stored height is 1.
\<close>

definition send_receive_env :: env where
  "send_receive_env =
     \<lparr>block_get = [1 \<mapsto> blk 0 0 1, 2 \<mapsto> blk 1 0 2, 3 \<mapsto> blk 2 0 3,
                   11 \<mapsto> blk 0 0 1, 12 \<mapsto> blk 11 0 2, 13 \<mapsto> blk 12 0 3,
                   14 \<mapsto> blk 13 0 4, 15 \<mapsto> blk 14 3 5],
      block_account_height = (\<lambda>h. if h < 10 then ucast h else ucast h - 10),
      block_account = (\<lambda>h. if h < 10 then 10 else 20),
      source_exists = (\<lambda>h. h = 1 \<or> h = 2 \<or> h = 3 \<or> (11 \<le> h \<and> h \<le> 15)),
      epoch_link = 99, batch_write_size = 4096, batch_read_size = 4096,
      stopped_at = (\<lambda>n. False)\<rparr>"

definition send_receive_start :: processor where
  "send_receive_start =
     processor_on [10 \<mapsto> \<lparr>confirmation_height = 2\<rparr>, 20 \<mapsto> \<lparr>confirmation_height = 1\<rparr>]
       \<lparr>pending = {}, current_hash = 15\<rparr>"

text \<open>The frame that the descent from block 15 leaves on the stack.\<close>

definition receive_frame :: "u64 \<Rightarrow> receive_source_pair" where
  "receive_frame n =
     \<lparr>receive_details = \<lparr>account = 20, hash = 15, height = 5, num_blocks_confirmed = n\<rparr>,
      source_hash = 3\<rparr>"



text \<open>The self-send ledger with block 3 in the pending set and no current hash.\<close>

definition self_send_queued :: processor where
  "self_send_queued =
     processor_on [10 \<mapsto> \<lparr>confirmation_height = 1\<rparr>] \<lparr>pending = {3}, current_hash = 0\<rparr>"




section \<open>Ledgers of account chains and the state of a traversal\<close>

text \<open>
  What identifies a frame of the stack: the account, the hash and the height of the
  receive block, and the hash of its source.
\<close>

type_synonym frame_key = "account \<times> block_hash \<times> u64 \<times> block_hash"

definition frame_key :: "receive_source_pair \<Rightarrow> frame_key" where
  "frame_key f =
     (account (receive_details f), hash (receive_details f), height (receive_details f),
      source_hash f)"

text \<open>
  A ledger of account chains, for a ranking of the blocks (the order in which they were
  added) and a bound \<open>M\<close> on the heights: the heights of the blocks in the store are at
  most \<open>M\<close>, and \<open>(batch_write_size + 2) * M\<close> is below \<open>2^63\<close>; a source that
  \<^verbatim>\<open>source_exists\<close> reports is in the store; the previous block of a block is in the
  store, in the same account, one lower, and of lower rank; the source of a receive is of
  lower rank than the receive; and within one account a block of lower rank is lower.
\<close>

definition ledger_ok :: "env \<Rightarrow> (block_hash \<Rightarrow> nat) \<Rightarrow> nat \<Rightarrow> bool" where
  "ledger_ok e rank M \<longleftrightarrow>
     (batch_write_size e + 2) * M < 2 ^ 63
   \<and> (\<forall>h. block_get e h \<noteq> None \<longrightarrow> unat (block_account_height e h) \<le> M)
   \<and> (\<forall>h. source_exists e h \<longrightarrow> block_get e h \<noteq> None)
   \<and> (\<forall>h b sb. block_get e h = Some (b, sb) \<and> previous b \<noteq> 0 \<longrightarrow>
          block_get e (previous b) \<noteq> None
        \<and> block_account e (previous b) = block_account e h
        \<and> block_account_height e (previous b) + 1 = block_account_height e h
        \<and> rank (previous b) < rank h)
   \<and> (\<forall>h b sb. block_get e h = Some (b, sb) \<longrightarrow>
          (let src = (if source b = 0 then link b else source b)
           in src \<noteq> 0 \<and> src \<noteq> epoch_link e \<and> source_exists e src \<longrightarrow> rank src < rank h))
   \<and> (\<forall>h1 h2. block_get e h1 \<noteq> None \<and> block_get e h2 \<noteq> None
          \<and> block_account e h1 = block_account e h2 \<and> rank h1 < rank h2 \<longrightarrow>
          block_account_height e h1 < block_account_height e h2)"


text \<open>The order of the frames on the stack, by the rank of their receive blocks.\<close>

definition key_rank_less :: "(block_hash \<Rightarrow> nat) \<Rightarrow> frame_key \<Rightarrow> frame_key \<Rightarrow> bool" where
  "key_rank_less rank = (\<lambda>(a, h, ht, src) (a', h', ht', src'). rank h < rank h')"


text \<open>The height stored for an account, if the account has a record.\<close>

definition vheight :: "(account \<Rightarrow> account_info option) \<Rightarrow> account \<Rightarrow> u64 option" where
  "vheight st a = map_option confirmation_height (st a)"

text \<open>
  Every entry of a deque, at its turn, is above the height stored for its account, and
  its count is the difference of the two.
\<close>

fun entries_exact :: "(account \<Rightarrow> account_info option) \<Rightarrow> conf_height_details list \<Rightarrow> bool" where
  "entries_exact st [] = True"
| "entries_exact st (w # ws) =
     ((case st (account w) of
         None \<Rightarrow> False
       | Some info \<Rightarrow>
           confirmation_height info < height w
           \<and> num_blocks_confirmed w = height w - confirmation_height info)
      \<and> entries_exact (apply_entry st w) ws)"

text \<open>A frame for a receive block of the store, with its source.\<close>

definition key_ok :: "env \<Rightarrow> (block_hash \<Rightarrow> nat) \<Rightarrow> frame_key \<Rightarrow> bool" where
  "key_ok e rank = (\<lambda>(a, h, ht, src).
     block_get e h \<noteq> None \<and> block_account e h = a \<and> block_account_height e h = ht
     \<and> block_get e src \<noteq> None \<and> rank src < rank h)"

text \<open>
  What holds of the store \<open>st\<close>, the pending writes \<open>pw\<close>, the map
  \<^verbatim>\<open>confirmed_iterated_pairs\<close> and the frames of the stack at the head of the loop of
  lines 114 to 254: the pending writes are exact, the confirmed height of a map entry is
  the height that the store holds once the pending writes are applied, and the block of
  every frame is above that height.
\<close>

definition core ::
  "env \<Rightarrow> (block_hash \<Rightarrow> nat) \<Rightarrow> nat \<Rightarrow> (account \<Rightarrow> account_info option)
     \<Rightarrow> conf_height_details list \<Rightarrow> (account \<rightharpoonup> confirmed_iterated_pair)
     \<Rightarrow> frame_key list \<Rightarrow> bool" where
  "core e rank M st pw m ks \<longleftrightarrow>
     entries_exact st pw
   \<and> (\<forall>a pr. m a = Some pr \<longrightarrow>
          vheight (foldl apply_entry st pw) a = Some (confirmed_height pr))
   \<and> (\<forall>w \<in> set pw. account w \<in> dom m \<and> unat (height w) \<le> M)
   \<and> (\<forall>k \<in> set ks. key_ok e rank k \<and> fst k \<in> dom m
          \<and> (\<exists>c. vheight (foldl apply_entry st pw) (fst k) = Some c \<and> c < fst (snd (snd k))))
   \<and> sorted_wrt (key_rank_less rank) ks"


text \<open>The step of lines 171 to 188 on the locals.\<close>

definition confirm_current :: "u64 \<Rightarrow> u64 \<Rightarrow> u64 \<Rightarrow> account \<Rightarrow> traversal \<Rightarrow> traversal" where
  "confirm_current bh ch ih acct t =
     (if ch < bh
      then t\<lparr>confirmed_iterated_pairs :=
               (case confirmed_iterated_pairs t acct of
                  Some pr \<Rightarrow>
                    (confirmed_iterated_pairs t)(acct \<mapsto>
                       (if ih < bh
                        then pr\<lparr>confirmed_height := bh, iterated_height := bh\<rparr>
                        else pr\<lparr>confirmed_height := bh\<rparr>))
                | None \<Rightarrow>
                    emplace (confirmed_iterated_pairs t) acct
                      \<lparr>confirmed_height = bh, iterated_height = bh\<rparr>),
              pending_writes := pending_writes t @
                [\<lparr>account = acct, hash = current_block t, height = bh,
                  num_blocks_confirmed = bh - ch\<rparr>]\<rparr>
      else t)"

text \<open>
  The accounting of a deque handed to \<^verbatim>\<open>write_pending\<close>: the sum of the counts of
  its entries, and the increase of the stored heights that applying it produces, summed
  over the accounts of its entries (new height minus old height). \<open>store_increase\<close> is
  the increase between two states of the store, summed over all accounts.
\<close>

definition stored :: "(account \<Rightarrow> account_info option) \<Rightarrow> account \<Rightarrow> u64" where
  "stored st a = (case st a of None \<Rightarrow> 0 | Some info \<Rightarrow> confirmation_height info)"







section \<open>Properties\<close>

subsection \<open>The pending queue\<close>

text \<open>
  Claim C6. For every hash and every state of the pending queue,
  \<^verbatim>\<open>is_processing_block\<close> answers true exactly when the hash is the current hash and the
  current hash is not zero, or the hash is in the pending set. The current hash is one
  field of the queue, so two hashes that are both current are the same hash.
\<close>

theorem is_processing_block_iff:
  "(is_processing_block q h \<longleftrightarrow> (h = current_hash q \<and> current_hash q \<noteq> 0) \<or> h \<in> pending q)
   \<and> (current q = h \<and> current q = h' \<longrightarrow> h = h')"
  by (auto simp: is_processing_block_def is_zero_def current_def)

theorem is_processing_block_iff_witness:
  "is_processing_block \<lparr>pending = {5}, current_hash = 7\<rparr> 7
   \<and> is_processing_block \<lparr>pending = {5}, current_hash = 7\<rparr> 5
   \<and> \<not> is_processing_block \<lparr>pending = {5}, current_hash = 0\<rparr> 0
   \<and> current \<lparr>pending = {5}, current_hash = 7\<rparr> = 7"
  using is_processing_block_iff [of "\<lparr>pending = {5}, current_hash = 7\<rparr>" 7 7]
    is_processing_block_iff [of "\<lparr>pending = {5}, current_hash = 7\<rparr>" 5 7]
    is_processing_block_iff [of "\<lparr>pending = {5}, current_hash = 0\<rparr>" 0 0]
  by (simp add: current_def)

subsection \<open>Stored heights never go down\<close>

declare collect_loop.simps [simp del]

lemma height_le_refl [simp]: "height_le x x"
  by (simp add: height_le_def split: option.splits)

lemma height_le_trans: "height_le x y \<Longrightarrow> height_le y z \<Longrightarrow> height_le x z"
  by (auto simp: height_le_def split: option.splits)

lemma collect_body_accounts [simp]: "accounts (snd (collect_body e a h lp)) = accounts (snd lp)"
  by (cases lp) (auto simp: collect_body_def Let_def split: option.splits prod.splits if_splits)

lemma collect_loop_accounts [simp]: "accounts (snd (collect_loop e a h lp)) = accounts (snd lp)"
  by (induction e a h lp rule: collect_loop.induct) (subst collect_loop.simps, simp)

lemma collect_accounts [simp]:
  "accounts (collect_unconfirmed_receive_and_sources_for_account e bh ch h a p) = accounts p"
  by (simp add: collect_unconfirmed_receive_and_sources_for_account_def Let_def split_beta)

lemma descend_accounts [simp]: "accounts (descend e bh ih cur a p) = accounts p"
  by (simp add: descend_def Let_def)

lemma record_writes_accounts [simp]:
  "accounts (fst (record_writes bh ch ih a pend pt)) = accounts (fst pt)"
  by (cases pt) (simp add: record_writes_def Let_def split: list.splits)

lemma write_batch_mono:
  "write_batch e p ws tot n = Inr (p', ws', tot', err) \<Longrightarrow> height_le (accounts p a) (accounts p' a)"
proof (induction ws arbitrary: p tot n)
  case Nil
  then show ?case by simp
next
  case (Cons w ws)
  from Cons.prems obtain info where info: "accounts p (account w) = Some info"
    by (auto split: option.splits)
  show ?case
  proof (cases "confirmation_height info < height w")
    case False
    with Cons.prems info show ?thesis
      by (auto simp: Let_def split: if_splits dest: Cons.IH)
  next
    case True
    show ?thesis
    proof (cases "block_get e (hash w)")
      case None
      with True Cons.prems info show ?thesis by auto
    next
      case (Some b)
      let ?p1 = "p\<lparr>stat_events := stat_events p @
                 [Stat_add Blocks_confirmed (height w - confirmation_height info)],
               accounts := (accounts p)(account w \<mapsto> info\<lparr>confirmation_height := height w\<rparr>)\<rparr>"
      have step: "height_le (accounts p a) (accounts ?p1 a)"
        using True info by (auto simp: height_le_def split: option.splits)
      from Some True Cons.prems info
      have "p' = ?p1 \<or> write_batch e ?p1 ws (tot - num_blocks_confirmed w) (Suc n) = Inr (p', ws', tot', err)"
        by (auto simp: Let_def split: if_splits)
      then show ?thesis
        using step Cons.IH height_le_trans by blast
    qed
  qed
qed

lemmas write_pending_induct = write_pending.raw_induct [rotated 1, consumes 1, case_names step]

lemmas traverse_induct = traverse.raw_induct [rotated 1, consumes 1, case_names step]

lemma write_pending_mono_aux:
  assumes "write_pending e p ws tot = Some y"
  shows "\<forall>p' ws' err. y = Inr (p', ws', err) \<longrightarrow> height_le (accounts p a) (accounts p' a)"
  using assms
proof (induct rule: write_pending_induct)
  case (step wp e p ws tot y)
  show ?case
  proof (cases "0 <s tot")
    case False
    with step(2) show ?thesis by auto
  next
    case True
    show ?thesis
    proof (intro allI impI)
      fix p' ws' err
      assume y: "y = Inr (p', ws', err)"
      with step(2) True obtain p1 ws1 tot1 r
        where wb: "write_batch e p ws tot 0 = Inr (p1, ws1, tot1, r)"
        by (auto split: sum.splits)
      have m1: "height_le (accounts p a) (accounts p1 a)"
        using wb by (rule write_batch_mono)
      show "height_le (accounts p a) (accounts p' a)"
      proof (cases r)
        case True
        with wb step(2) \<open>0 <s tot\<close> y show ?thesis using m1 by simp
      next
        case False
        with wb step(2) \<open>0 <s tot\<close> have "wp e p1 ws1 tot1 = Some y" by simp
        then have "height_le (accounts p1 a) (accounts p' a)"
          using step(1) y by blast
        with m1 show ?thesis by (rule height_le_trans)
      qed
    qed
  qed
qed

lemma write_pending_mono:
  "write_pending e p ws tot = Some (Inr (p', ws', err)) \<Longrightarrow> height_le (accounts p a) (accounts p' a)"
  using write_pending_mono_aux by blast

lemma flush_mono:
  assumes "flush e (p, t) = Some (Inr (p', t', x))"
  shows "height_le (accounts p a) (accounts p' a)"
proof (cases "(batch_write_size e \<le> length (pending_writes t) \<or> receive_source_pairs p = [])
        \<and> pending_writes t \<noteq> []")
  case False
  with assms show ?thesis
    by (auto simp: flush_def check_stopped_def)
next
  case True
  with assms obtain p1 ws1 err where
    wp: "write_pending e (p\<lparr>write_pending_calls := write_pending_calls p @ [pending_writes t]\<rparr>)
           (pending_writes t) (total_pending_write_block_count (pending_writes t))
         = Some (Inr (p1, ws1, err))"
    and p': "accounts p' = accounts p1"
    by (auto simp: flush_def check_stopped_def split: option.splits sum.splits if_splits)
  from write_pending_mono [OF wp, of a] p' show ?thesis by simp
qed

lemma iteration_Inr:
  assumes "iteration e h (p, t0) = Some (Inr r)"
  obtains info ch ih where
    "accounts p (block_account e (current_block (select_frame h p t0))) = Some info"
    "known_heights (confirmation_height info)
       (confirmed_iterated_pairs (select_frame h p t0)
          (block_account e (current_block (select_frame h p t0)))) = (ch, ih)"
    "flush e (record_writes (block_account_height e (current_block (select_frame h p t0))) ch ih
        (block_account e (current_block (select_frame h p t0)))
        (length (receive_source_pairs p) \<noteq>
         length (receive_source_pairs
           (descend e (block_account_height e (current_block (select_frame h p t0))) ih
              (current_block (select_frame h p t0))
              (block_account e (current_block (select_frame h p t0))) p)))
        (descend e (block_account_height e (current_block (select_frame h p t0))) ih
              (current_block (select_frame h p t0))
              (block_account e (current_block (select_frame h p t0))) p,
         select_frame h p t0)) = Some (Inr r)"
  using assms
  by (auto simp: iteration_def Let_def split: option.splits prod.splits)

lemma iteration_mono:
  assumes "iteration e h (p, t) = Some (Inr (p', t', x))"
  shows "height_le (accounts p a) (accounts p' a)"
proof -
  from assms obtain pt2 where fl: "flush e pt2 = Some (Inr (p', t', x))"
    and acc: "accounts (fst pt2) = accounts p"
    by (elim iteration_Inr) simp
  from fl have "height_le (accounts (fst pt2) a) (accounts p' a)"
    by (cases pt2) (auto dest: flush_mono)
  with acc show ?thesis by simp
qed

lemma traverse_last:
  assumes tr: "traverse e h pt = Some y"
    and inv: "\<And>p0 t0 p t. I (p0, t0) \<Longrightarrow> iteration e h (p0, t0) = Some (Inr (p, t, None)) \<Longrightarrow> I (p, t)"
  shows "\<forall>p' t' ex. y = Inr (p', t', ex) \<longrightarrow> I pt \<longrightarrow>
          (\<exists>p0 t0 x. I (p0, t0) \<and> iteration e h (p0, t0) = Some (Inr (p', t', x))
           \<and> (x = Some ex \<or> x = None \<and> ex = Loop_finished \<and> receive_source_pairs p' = []
                 \<and> current_block t' = h))"
proof -
  have "e' = e \<longrightarrow> h' = h \<longrightarrow> (\<forall>p' t' ex. y = Inr (p', t', ex) \<longrightarrow> I pt \<longrightarrow>
          (\<exists>p0 t0 x. I (p0, t0) \<and> iteration e h (p0, t0) = Some (Inr (p', t', x))
           \<and> (x = Some ex \<or> x = None \<and> ex = Loop_finished \<and> receive_source_pairs p' = []
                 \<and> current_block t' = h)))"
    if "traverse e' h' pt = Some y" for e' h'
    using that
  proof (induct rule: traverse_induct)
    case (step tr e' h' pt y)
    show ?case
    proof (intro allI impI)
      fix p' t' ex
      assume e': "e' = e" and h': "h' = h"
      assume y: "y = Inr (p', t', ex)" and I0: "I pt"
      obtain p0 t0 where pt: "pt = (p0, t0)" by (cases pt)
      from step(2) y obtain p t x where it: "iteration e h pt = Some (Inr (p, t, x))"
        unfolding e' h' by (auto split: option.splits sum.splits)
      show "\<exists>p0 t0 x. I (p0, t0) \<and> iteration e h (p0, t0) = Some (Inr (p', t', x))
             \<and> (x = Some ex \<or> x = None \<and> ex = Loop_finished \<and> receive_source_pairs p' = []
                   \<and> current_block t' = h)"
      proof (cases x)
        case (Some ex')
        with it step(2) y have "p = p'" "t = t'" "ex' = ex" unfolding e' h' by auto
        with it Some I0 pt show ?thesis by blast
      next
        case None
        show ?thesis
        proof (cases "receive_source_pairs p \<noteq> [] \<or> current_block t \<noteq> h")
          case True
          with None it step(2) have "tr e' h' (p, t) = Some y" unfolding e' h' by simp
          moreover have "I (p, t)"
            using I0 it None inv pt by blast
          ultimately show ?thesis
            using step(1) y e' h' by blast
        next
          case False
          with None it step(2) y have "p = p'" "t = t'" "ex = Loop_finished"
            unfolding e' h' by auto
          with it None False I0 pt show ?thesis by blast
        qed
      qed
    qed
  qed
  with tr show ?thesis by blast
qed

lemma traverse_mono:
  assumes "traverse e h (p, t) = Some (Inr (p', t', ex))"
  shows "height_le (accounts p a) (accounts p' a)"
proof -
  let ?I = "\<lambda>pt. height_le (accounts p a) (accounts (fst pt) a)"
  have "\<exists>p0 t0 x. ?I (p0, t0) \<and> iteration e h (p0, t0) = Some (Inr (p', t', x))
           \<and> (x = Some ex \<or> x = None \<and> ex = Loop_finished \<and> receive_source_pairs p' = []
                 \<and> current_block t' = h)"
    using traverse_last [OF assms, where I = ?I]
    by (auto intro: height_le_trans dest: iteration_mono)
  then show ?thesis
    by (auto intro: height_le_trans dest: iteration_mono)
qed


lemma self_send_observed:
  "observe [10] (add_confirmation_height self_send_env 3 self_send_start) =
     Some ([Some 3], [], [2],
           [Stat_add Blocks_confirmed 1, Stat_add Blocks_confirmed 1],
           [[\<lparr>account = 10, hash = 2, height = 2, num_blocks_confirmed = 1\<rparr>,
             \<lparr>account = 10, hash = 3, height = 3, num_blocks_confirmed = 1\<rparr>]],
           [], [], Loop_finished)"
  by code_simp

lemma observe_SomeD:
  "observe as r = Some (hs, st, cb, se, wc, lg, pw, ex) \<Longrightarrow>
     \<exists>p t. r = Some (Inr (p, t, ex)) \<and> map (\<lambda>a. map_option confirmation_height (accounts p a)) as = hs
       \<and> receive_source_pairs p = st \<and> confirm_block_calls p = cb \<and> stat_events p = se
       \<and> write_pending_calls p = wc \<and> log_lines p = lg \<and> pending_writes t = pw"
  by (auto simp: observe_def split: option.splits sum.splits)

text \<open>
  Claim C1. The confirmation height stored for an account never goes down: not over a
  call of \<^verbatim>\<open>write_pending\<close>, and not over a whole invocation of
  \<^verbatim>\<open>add_confirmation_height\<close>. Handling one entry changes the account table only when
  the height of the entry is above the stored height (and the block of the entry is still
  in the store), and then the stored height becomes exactly the height of the entry.
\<close>

theorem confirmation_height_monotone:
  "(add_confirmation_height e h p = Some (Inr (p', t', ex)) \<longrightarrow>
      height_le (accounts p a) (accounts p' a))
   \<and> (write_pending e p ws tot = Some (Inr (p'', ws', err)) \<longrightarrow>
      height_le (accounts p a) (accounts p'' a))
   \<and> (accounts p (account w) = Some info \<longrightarrow>
      (\<exists>r. write_batch e p [w] tot n = Inr r \<and>
         accounts (fst r) =
           (if confirmation_height info < height w \<and> block_get e (hash w) \<noteq> None
            then (accounts p)(account w \<mapsto> info\<lparr>confirmation_height := height w\<rparr>)
            else accounts p)))"
proof (intro conjI impI)
  assume "add_confirmation_height e h p = Some (Inr (p', t', ex))"
  then show "height_le (accounts p a) (accounts p' a)"
    by (auto simp: add_confirmation_height_def split: if_splits dest: traverse_mono)
next
  assume "write_pending e p ws tot = Some (Inr (p'', ws', err))"
  then show "height_le (accounts p a) (accounts p'' a)"
    by (rule write_pending_mono)
next
  assume "accounts p (account w) = Some info"
  then show "\<exists>r. write_batch e p [w] tot n = Inr r \<and>
         accounts (fst r) =
           (if confirmation_height info < height w \<and> block_get e (hash w) \<noteq> None
            then (accounts p)(account w \<mapsto> info\<lparr>confirmation_height := height w\<rparr>)
            else accounts p)"
    by (auto simp: Let_def split: option.splits)
qed

theorem confirmation_height_monotone_witness:
  "\<exists>p' t'. add_confirmation_height self_send_env 3 self_send_start = Some (Inr (p', t', Loop_finished))
     \<and> accounts self_send_start 10 = Some \<lparr>confirmation_height = 1\<rparr>
     \<and> accounts p' 10 = Some \<lparr>confirmation_height = 3\<rparr>
     \<and> height_le (accounts self_send_start 10) (accounts p' 10)"
proof -
  from observe_SomeD [OF self_send_observed]
  obtain p' t' where run: "add_confirmation_height self_send_env 3 self_send_start
      = Some (Inr (p', t', Loop_finished))"
    and h: "\<exists>z. accounts p' 10 = Some z \<and> confirmation_height z = 3"
    by auto
  from confirmation_height_monotone [of self_send_env 3 self_send_start p' t' Loop_finished 10]
    run
  have "height_le (accounts self_send_start 10) (accounts p' 10)"
    by simp
  moreover from h have "accounts p' 10 = Some \<lparr>confirmation_height = 3\<rparr>"
    by auto
  moreover have "accounts self_send_start 10 = Some \<lparr>confirmation_height = 1\<rparr>"
    by (simp add: self_send_start_def processor_on_def)
  ultimately show ?thesis using run by blast
qed

subsection \<open>The descent\<close>

lemma collect_body_num [simp]:
  "num_to_confirm (fst (collect_body e a c lp)) = num_to_confirm (fst lp) - 1"
  by (cases lp) (simp add: collect_body_def Let_def split: option.splits prod.splits)

lemma collect_body_iterations [simp]:
  "iterations (fst (collect_body e a c lp)) = Suc (iterations (fst lp))"
  by (cases lp) (simp add: collect_body_def Let_def split: option.splits prod.splits)

lemma collect_body_missing:
  "block_get e (c_hash l) = None \<Longrightarrow>
     collect_body e a c (l, p) =
       (l\<lparr>num_to_confirm := num_to_confirm l - 1, iterations := Suc (iterations l)\<rparr>, p)"
  by (simp add: collect_body_def)

lemma unat_pred: "0 < (n :: u64) \<Longrightarrow> unat (n - 1) = unat n - 1"
  by (simp add: unat_minus_one word_greater_zero_iff)

lemma unat_pos: "0 < (n :: u64) \<Longrightarrow> 0 < unat n"
  by (simp add: word_greater_zero_iff unat_gt_0)

lemma collect_loop_step:
  "0 < num_to_confirm (fst lp) \<Longrightarrow> \<not> is_zero (c_hash (fst lp)) \<Longrightarrow>
     collect_loop e a c lp = collect_loop e a c (collect_body e a c lp)"
  by (subst collect_loop.simps) simp

lemma collect_loop_stop:
  "\<not> (0 < num_to_confirm (fst lp) \<and> \<not> is_zero (c_hash (fst lp))) \<Longrightarrow>
     collect_loop e a c lp = lp"
  by (subst collect_loop.simps) auto

lemma collect_loop_iterations:
  "iterations (fst (collect_loop e a c lp)) \<le> iterations (fst lp) + unat (num_to_confirm (fst lp))"
proof (induction e a c lp rule: collect_loop.induct)
  case (1 e a c lp)
  show ?case
  proof (cases "0 < num_to_confirm (fst lp) \<and> \<not> is_zero (c_hash (fst lp))")
    case True
    then have "collect_loop e a c lp = collect_loop e a c (collect_body e a c lp)"
      by (simp add: collect_loop_step)
    moreover from True 1 have "iterations (fst (collect_loop e a c (collect_body e a c lp)))
        \<le> Suc (iterations (fst lp)) + (unat (num_to_confirm (fst lp)) - 1)"
      by (simp add: unat_pred)
    moreover from True have "0 < unat (num_to_confirm (fst lp))"
      by (simp add: unat_pos)
    ultimately show ?thesis by simp
  next
    case False
    then have "collect_loop e a c lp = lp"
      by (rule collect_loop_stop)
    then show ?thesis by simp
  qed
qed

lemma collect_loop_missing:
  "block_get e (c_hash l) = None \<Longrightarrow> \<not> is_zero (c_hash l) \<Longrightarrow>
     collect_loop e a c (l, p) =
       (l\<lparr>num_to_confirm := 0, iterations := iterations l + unat (num_to_confirm l)\<rparr>, p)"
proof (induction "unat (num_to_confirm l)" arbitrary: l)
  case 0
  then have z: "num_to_confirm l = 0"
    by (simp add: unat_eq_0)
  then have "collect_loop e a c (l, p) = (l, p)"
    by (subst collect_loop.simps) simp
  with z show ?case by simp
next
  case (Suc k)
  then have pos: "0 < num_to_confirm l"
    by (metis unat_gt_0 word_greater_zero_iff zero_less_Suc)
  let ?l = "l\<lparr>num_to_confirm := num_to_confirm l - 1, iterations := Suc (iterations l)\<rparr>"
  have k: "k = unat (num_to_confirm ?l)"
    using Suc(2) pos by (simp add: unat_pred)
  have "collect_loop e a c (l, p) = collect_loop e a c (?l, p)"
    using pos Suc(3,4) by (subst collect_loop.simps) (simp add: collect_body_missing)
  also have "\<dots> = (?l\<lparr>num_to_confirm := 0, iterations := iterations ?l + unat (num_to_confirm ?l)\<rparr>, p)"
    using Suc(1) [OF k] Suc(3,4) by simp
  finally show ?case
    using Suc(2) k by simp
qed

text \<open>
  Claim C10. The loop of \<^verbatim>\<open>collect_unconfirmed_receive_and_sources_for_account\<close> ends
  after at most \<open>hi - down\<close> executions of its body (the function is total, and the
  count of executions is bounded by the initial \<^verbatim>\<open>num_to_confirm\<close>), because every
  execution takes one from \<^verbatim>\<open>num_to_confirm\<close>. This holds also when \<^verbatim>\<open>block_get\<close>
  finds no block: that execution changes nothing of the processor (no frame, no call of
  \<^verbatim>\<open>confirm_block\<close>) and keeps the hash, and the loop goes on, on the same hash, until
  the count is used up.
\<close>

theorem collect_loop_bounded:
  "iterations (fst (collect_loop e a down
       (\<lparr>c_hash = h, num_to_confirm = hi - down, next_height = height_not_set,
         iterations = 0\<rparr>, p))) \<le> unat (hi - down)
   \<and> (down \<le> hi \<longrightarrow> unat (hi - down) = unat hi - unat down)
   \<and> num_to_confirm (fst (collect_body e a down (l, p))) = num_to_confirm l - 1
   \<and> (0 < num_to_confirm l \<longrightarrow>
        unat (num_to_confirm (fst (collect_body e a down (l, p)))) = unat (num_to_confirm l) - 1)
   \<and> (block_get e (c_hash l) = None \<longrightarrow>
        snd (collect_body e a down (l, p)) = p
        \<and> c_hash (fst (collect_body e a down (l, p))) = c_hash l)
   \<and> (block_get e (c_hash l) = None \<and> \<not> is_zero (c_hash l) \<longrightarrow>
        collect_loop e a down (l, p) =
          (l\<lparr>num_to_confirm := 0, iterations := iterations l + unat (num_to_confirm l)\<rparr>, p))"
  using collect_loop_iterations [of e a down "(\<lparr>c_hash = h, num_to_confirm = hi - down,
      next_height = height_not_set, iterations = 0\<rparr>, p)"]
  by (auto simp: unat_sub collect_body_missing collect_loop_missing unat_pred)


theorem collect_loop_bounded_witness:
  "collect_loop self_send_env 10 1
     (\<lparr>c_hash = 7, num_to_confirm = 2, next_height = height_not_set, iterations = 0\<rparr>,
      self_send_start) =
     (\<lparr>c_hash = 7, num_to_confirm = 0, next_height = height_not_set, iterations = 2\<rparr>,
      self_send_start)
   \<and> iterations (fst (collect_loop self_send_env 10 1
       (\<lparr>c_hash = 7, num_to_confirm = 3 - 1, next_height = height_not_set,
         iterations = 0\<rparr>, self_send_start))) \<le> 2
   \<and> snd (collect_body self_send_env 10 1
       (\<lparr>c_hash = 7, num_to_confirm = 2, next_height = height_not_set, iterations = 0\<rparr>,
        self_send_start)) = self_send_start"
  using collect_loop_bounded [where e = self_send_env and a = 10 and down = 1 and h = 7
      and hi = 3 and p = self_send_start
      and l = "\<lparr>c_hash = 7, num_to_confirm = 2, next_height = height_not_set, iterations = 0\<rparr>"]
  by (simp add: self_send_env_def is_zero_def)

lemma first_descent:
  "receive_source_pairs
     (collect_unconfirmed_receive_and_sources_for_account send_receive_env 5 1 15 20
        send_receive_start) = [receive_frame 4]"
  by code_simp

text \<open>
  Claim C5 fails on the code: the assignment of lines 364 to 367 is guarded by the stack
  being non-empty, not by a frame having been pushed in this descent. In the invocation on
  block 15 of the send and receive ledger, the descent of account 20 leaves one frame with
  the count 4; the descent of account 10 from block 3 then pushes nothing, and still sets
  the count of that frame to 5 - 2 = 3, the height of a block of account 20 minus the
  height known for account 10.
\<close>

theorem fixup_changes_earlier_frame:
  "receive_source_pairs
     (collect_unconfirmed_receive_and_sources_for_account send_receive_env 3 2 3 10
        (send_receive_start\<lparr>receive_source_pairs := [receive_frame 4],
           receive_source_pairs_size := 1\<rparr>)) = [receive_frame 3]"
  by code_simp

subsection \<open>The stack at the ends of an invocation\<close>

lemma flush_exit:
  assumes "flush e pt = Some (Inr (p', t', Some ex))"
  shows "ex = Write_error \<and> receive_source_pairs p' = [] \<or> ex = Stop_requested"
  using assms
  by (cases pt)
     (auto simp: flush_def check_stopped_def split: if_splits option.splits sum.splits)

lemma iteration_exit:
  assumes "iteration e h pt = Some (Inr (p', t', Some ex))"
  shows "ex = Write_error \<and> receive_source_pairs p' = [] \<or> ex = Stop_requested"
proof -
  obtain p t where "pt = (p, t)" by (cases pt)
  with assms have "iteration e h (p, t) = Some (Inr (p', t', Some ex))" by simp
  then show ?thesis
    by (rule iteration_Inr) (rule flush_exit)
qed

lemma self_send_stopped_observed:
  "observe [10] (add_confirmation_height self_send_stopped_env 3 self_send_start) =
     Some ([Some 1],
           [\<lparr>receive_details =
               \<lparr>account = 10, hash = 3, height = 3, num_blocks_confirmed = 2\<rparr>,
             source_hash = 2\<rparr>],
           [2], [], [], [], [], Stop_requested)"
  by code_simp

text \<open>
  Claim C7 fails on the exit at line 250: when \<^verbatim>\<open>stopped\<close> is read as set while frames
  are on the stack, the invocation returns and the frames stay. In the self-send ledger
  with the flag set, the first iteration pushes the frame of block 3 and the invocation
  ends there.
\<close>

theorem stack_left_when_stopped:
  "left_on_stack (add_confirmation_height self_send_stopped_env 3 self_send_start) =
     Some [\<lparr>receive_details =
              \<lparr>account = 10, hash = 3, height = 3, num_blocks_confirmed = 2\<rparr>,
            source_hash = 2\<rparr>]"
  using observe_SomeD [OF self_send_stopped_observed]
  by (auto simp: left_on_stack_def)

lemma exit_stack:
  assumes run: "add_confirmation_height e h p = Some (Inr (p', t', ex))"
    and ex: "ex \<noteq> Stop_requested"
  shows "receive_source_pairs p' = []"
proof -
  from run obtain pt where tr: "traverse e h pt = Some (Inr (p', t', ex))"
    by (auto simp: add_confirmation_height_def split: if_splits)
  from traverse_last [OF tr, where I = "\<lambda>pt. True"]
  obtain pt0 x where it: "iteration e h pt0 = Some (Inr (p', t', x))"
    and x: "x = Some ex \<or> x = None \<and> receive_source_pairs p' = []"
    by auto
  from x show "receive_source_pairs p' = []"
  proof
    assume "x = Some ex"
    with it ex show ?thesis by (auto dest: iteration_exit)
  qed simp
qed

lemma run_pending_stack:
  assumes "run_pending e chosen p = Some (Inr (p2, t, ex))" and "ex \<noteq> Stop_requested"
  shows "receive_source_pairs p2 = []"
  using assms
  by (auto simp: run_pending_def Let_def set_current_hash_def
      split: option.splits sum.splits dest: exit_stack)

lemma invocations_stack:
  "receive_source_pairs p = [] \<Longrightarrow>
     \<forall>(e, h, q) \<in> set (invocations evs p). receive_source_pairs q = []"
proof (induction evs p rule: invocations.induct)
  case (1 p)
  show ?case by simp
next
  case (2 hash_a evs p)
  then show ?case by (simp add: add_def)
next
  case (3 e chosen evs p)
  show ?case
  proof (cases "chosen \<in> pending (pending_confirmations p)")
    case False
    with 3 show ?thesis by simp
  next
    case True
    show ?thesis
    proof (cases "run_pending e chosen p")
      case None
      with True 3(3) show ?thesis by simp
    next
      case (Some r)
      show ?thesis
      proof (cases r)
        case (Inl f)
        with Some True 3(3) show ?thesis by simp
      next
        case (Inr x)
        obtain p2 t ex where x: "x = (p2, t, ex)" by (cases x)
        show ?thesis
        proof (cases "ex = Stop_requested")
          case True
          with Some Inr x \<open>chosen \<in> pending (pending_confirmations p)\<close> 3(3) show ?thesis by simp
        next
          case False
          from Some Inr x False have "receive_source_pairs p2 = []"
            by (auto dest: run_pending_stack)
          from 3(1) [OF True Some Inr x [symmetric] refl False this]
          show ?thesis
            using Some Inr x False True 3(3) by simp
        qed
      qed
    qed
  qed
qed

text \<open>
  Claim C7 as amended. The thread starts with an empty stack. Every invocation of
  \<^verbatim>\<open>add_confirmation_height\<close> that the loop of \<^verbatim>\<open>run\<close> makes is entered with an
  empty stack, and an invocation leaves the stack empty when it ends by the loop condition
  or by the \<^verbatim>\<open>break\<close> after a failed write. An invocation that ends on \<^verbatim>\<open>stopped\<close>
  leaves the frames it had on the stack; the loop of \<^verbatim>\<open>run\<close> makes no invocation after
  it.
\<close>

theorem stack_empty_unless_stopped:
  "(receive_source_pairs p0 = [] \<longrightarrow>
      (\<forall>(e, h, p) \<in> set (invocations evs p0). receive_source_pairs p = []))
   \<and> (add_confirmation_height e h p = Some (Inr (p', t', ex)) \<longrightarrow>
        receive_source_pairs p = []
      \<and> (ex \<noteq> Stop_requested \<longrightarrow> receive_source_pairs p' = []))"
proof (intro conjI impI)
  assume "receive_source_pairs p0 = []"
  then show "\<forall>(e, h, p) \<in> set (invocations evs p0). receive_source_pairs p = []"
    by (rule invocations_stack)
next
  assume run: "add_confirmation_height e h p = Some (Inr (p', t', ex))"
  then show "receive_source_pairs p = []"
    by (auto simp: add_confirmation_height_def split: if_splits)
  assume "ex \<noteq> Stop_requested"
  with run show "receive_source_pairs p' = []" by (rule exit_stack)
qed

lemma self_send_passages:
  "map entered (invocations [Passage self_send_env 3, Added 3, Passage self_send_env 3]
       self_send_queued) = [(3, []), (3, [])]"
  by code_simp

theorem stack_empty_unless_stopped_witness:
  "map entered (invocations [Passage self_send_env 3, Added 3, Passage self_send_env 3]
       self_send_queued) = [(3, []), (3, [])]
   \<and> list_all (\<lambda>x. snd (entered x) = [])
       (invocations [Passage self_send_env 3, Added 3, Passage self_send_env 3] self_send_queued)
   \<and> (\<exists>p' t'. add_confirmation_height self_send_env 3 self_send_start
        = Some (Inr (p', t', Loop_finished))
      \<and> receive_source_pairs self_send_start = [] \<and> receive_source_pairs p' = [])"
proof -
  define xs where
    "xs = invocations [Passage self_send_env 3, Added 3, Passage self_send_env 3] self_send_queued"
  have "receive_source_pairs self_send_queued = []"
    by (simp add: self_send_queued_def processor_on_def)
  with stack_empty_unless_stopped [of self_send_queued
      "[Passage self_send_env 3, Added 3, Passage self_send_env 3]"]
  have "\<forall>(e, h, p) \<in> set xs. receive_source_pairs p = []"
    unfolding xs_def by blast
  then have all: "list_all (\<lambda>x. snd (entered x) = []) xs"
    by (auto simp: list_all_iff entered_def)
  from observe_SomeD [OF self_send_observed]
  obtain p' t' where run: "add_confirmation_height self_send_env 3 self_send_start
      = Some (Inr (p', t', Loop_finished))"
    by auto
  from stack_empty_unless_stopped [of _ _ self_send_env 3 self_send_start p' t' Loop_finished] run
  have "receive_source_pairs self_send_start = [] \<and> receive_source_pairs p' = []"
    by simp
  with run all self_send_passages show ?thesis
    unfolding xs_def by blast
qed


subsection \<open>The self-send\<close>

text \<open>
  Claim C3 fails on the number of entries: the invocation on block 3 hands one deque to
  \<^verbatim>\<open>write_pending\<close>, and the deque is not the single entry of block 3 with the
  count 2.
\<close>

theorem self_send_not_one_entry:
  "written (add_confirmation_height self_send_env 3 self_send_start) \<noteq>
     Some [[\<lparr>account = 10, hash = 3, height = 3, num_blocks_confirmed = 2\<rparr>]]"
  using observe_SomeD [OF self_send_observed]
  by (auto simp: written_def)

text \<open>
  Claim C3 as amended. In the self-send ledger the invocation on block 3 returns by the
  loop condition with an empty stack and the stored height 3. It makes one call of
  \<^verbatim>\<open>write_pending\<close>, with two entries for the account: block 2 at height 2 and block 3
  at height 3, each with the count 1 (the counts add up to 2). Block 2 is the one block
  passed to \<^verbatim>\<open>confirm_block\<close>.
\<close>

theorem self_send_two_entries:
  "observe [10] (add_confirmation_height self_send_env 3 self_send_start) =
     Some ([Some 3], [], [2],
           [Stat_add Blocks_confirmed 1, Stat_add Blocks_confirmed 1],
           [[\<lparr>account = 10, hash = 2, height = 2, num_blocks_confirmed = 1\<rparr>,
             \<lparr>account = 10, hash = 3, height = 3, num_blocks_confirmed = 1\<rparr>]],
           [], [], Loop_finished)
   \<and> total_pending_write_block_count
         [\<lparr>account = 10, hash = 2, height = 2, num_blocks_confirmed = 1\<rparr>,
          \<lparr>account = 10, hash = 3, height = 3, num_blocks_confirmed = 1\<rparr>] = 2"
  using self_send_observed by (simp add: total_pending_write_block_count_def)

subsection \<open>The chain of 100 blocks\<close>

lemma chain_observed:
  "observe [10] (run_pending chain_env 100 chain_start) =
     Some ([Some 100], [], map word_of_nat (rev [2..<100]),
           [Stat_add Blocks_confirmed 99],
           [[\<lparr>account = 10, hash = 100, height = 100, num_blocks_confirmed = 99\<rparr>]],
           [], [], Loop_finished)"
  by code_simp

text \<open>
  Claim C4 fails on the number of calls: block 100 is the current hash of the queue while
  it is processed, so \<^verbatim>\<open>is_processing_block\<close> holds for it and it is not passed to
  \<^verbatim>\<open>confirm_block\<close>.
\<close>

lemma chain_confirm_calls:
  "confirm_calls (run_pending chain_env 100 chain_start) = Some (map word_of_nat (rev [2..<100]))"
proof -
  from observe_SomeD [OF chain_observed]
  obtain p t where "run_pending chain_env 100 chain_start = Some (Inr (p, t, Loop_finished))"
    and "confirm_block_calls p = map word_of_nat (rev [2..<100])"
    by blast
  then show ?thesis
    by (simp only: confirm_calls_def option.case sum.case prod.case)
qed

theorem chain_not_99_calls:
  "map_option length (confirm_calls (run_pending chain_env 100 chain_start)) \<noteq> Some 99"
  by (simp only: chain_confirm_calls option.map length_map length_rev length_upt) simp

text \<open>
  Claim C4 as amended. On the chain of 100 blocks with the stored height 1, one passage of
  \<^verbatim>\<open>run\<close> on block 100 makes one call of \<^verbatim>\<open>write_pending\<close> with the one entry of
  height 100 and count 99, which raises the stored height to 100, and it makes 98 calls of
  \<^verbatim>\<open>confirm_block\<close>: one for each of the blocks 99 down to 2, and none for block 100,
  the current hash of the queue.
\<close>

theorem chain_one_entry_98_calls:
  "observe [10] (run_pending chain_env 100 chain_start) =
     Some ([Some 100], [], map word_of_nat (rev [2..<100]),
           [Stat_add Blocks_confirmed 99],
           [[\<lparr>account = 10, hash = 100, height = 100, num_blocks_confirmed = 99\<rparr>]],
           [], [], Loop_finished)
   \<and> map_option length (confirm_calls (run_pending chain_env 100 chain_start)) = Some 98"
proof
  show "observe [10] (run_pending chain_env 100 chain_start) =
     Some ([Some 100], [], map word_of_nat (rev [2..<100]),
           [Stat_add Blocks_confirmed 99],
           [[\<lparr>account = 10, hash = 100, height = 100, num_blocks_confirmed = 99\<rparr>]],
           [], [], Loop_finished)"
    by (rule chain_observed)
  show "map_option length (confirm_calls (run_pending chain_env 100 chain_start)) = Some 98"
    by (simp only: chain_confirm_calls option.map length_map length_rev length_upt) simp
qed

subsection \<open>Failed writes\<close>

















lemma collect_body_other [simp]:
  "log_lines (snd (collect_body e a c lp)) = log_lines (snd lp)"
  "stat_events (snd (collect_body e a c lp)) = stat_events (snd lp)"
  "write_pending_calls (snd (collect_body e a c lp)) = write_pending_calls (snd lp)"
  "pending_confirmations (snd (collect_body e a c lp)) = pending_confirmations (snd lp)"
  by (cases lp; auto simp: collect_body_def Let_def split: option.splits prod.splits if_splits)+

lemma collect_loop_other [simp]:
  "log_lines (snd (collect_loop e a c lp)) = log_lines (snd lp)"
  "stat_events (snd (collect_loop e a c lp)) = stat_events (snd lp)"
  "write_pending_calls (snd (collect_loop e a c lp)) = write_pending_calls (snd lp)"
  "pending_confirmations (snd (collect_loop e a c lp)) = pending_confirmations (snd lp)"
  by (induction e a c lp rule: collect_loop.induct; subst collect_loop.simps; simp)+

lemma collect_stats [simp]:
  "stat_events (collect_unconfirmed_receive_and_sources_for_account e bh ch h a p) = stat_events p"
  by (simp add: collect_unconfirmed_receive_and_sources_for_account_def Let_def split_beta)

lemma descend_stats [simp]: "stat_events (descend e bh ih cur a p) = stat_events p"
  by (simp add: descend_def Let_def)

lemma record_writes_stats [simp]:
  "stat_events (fst (record_writes bh ch ih a pend pt)) = stat_events (fst pt)"
  by (cases pt) (simp add: record_writes_def Let_def split: list.splits)




subsection \<open>A count above the range of the signed total\<close>









subsection \<open>The invariant of a traversal\<close>

lemma frame_key_set_back [simp]:
  "map frame_key (set_back_num_blocks_confirmed g st) = map frame_key st"
  by (cases st) (simp_all add: frame_key_def)





















lemma core_pop:
  "core e rank M st pw m (k # ks) \<Longrightarrow> core e rank M st pw m ks"
  unfolding core_def by simp











lemma exact_no_failure:
  "entries_exact st ws \<Longrightarrow> \<forall>w \<in> set ws. block_get e (hash w) \<noteq> None \<Longrightarrow> no_failure e st ws"
  by (induction ws arbitrary: st) (auto simp: entry_fails_def)

lemma select_frame_keeps [simp]:
  "pending_writes (select_frame h p t) = pending_writes t"
  "confirmed_iterated_pairs (select_frame h p t) = confirmed_iterated_pairs t"
  "stop_reads (select_frame h p t) = stop_reads t"
  by (simp_all add: select_frame_def split: list.splits option.splits)





lemma emplace_None [simp]: "m k = None \<Longrightarrow> emplace m k v = m(k \<mapsto> v)"
  by (simp add: emplace_def)


lemma confirm_current_keeps [simp]:
  "receive_details_opt (confirm_current bh ch ih acct t) = receive_details_opt t"
  "current_block (confirm_current bh ch ih acct t) = current_block t"
  "stop_reads (confirm_current bh ch ih acct t) = stop_reads t"
  by (simp_all add: confirm_current_def)




























lemma hash_11_15:
  assumes "(11 :: block_hash) \<le> h" "h \<le> 15"
  shows "h = 11 \<or> h = 12 \<or> h = 13 \<or> h = 14 \<or> h = 15"
proof -
  from assms have "11 \<le> unat h" "unat h \<le> 15"
    by (simp_all add: word_le_nat_alt)
  then have "unat h = 11 \<or> unat h = 12 \<or> unat h = 13 \<or> unat h = 14 \<or> unat h = 15"
    by arith
  moreover have "h = word_of_nat (unat h)" by simp
  ultimately show ?thesis by (elim disjE) simp_all
qed

lemma send_receive_ledger_ok: "ledger_ok send_receive_env unat 5"
  unfolding ledger_ok_def send_receive_env_def blk_def Let_def
  by (auto split: if_splits dest: hash_11_15)

lemma chain_height:
  assumes "(h :: block_hash) \<le> 100"
  shows "unat (ucast h :: u64) = unat h"
proof -
  from assms have "unat h \<le> 100" by (simp add: word_le_nat_alt)
  then have "unat h < 2 ^ 64" by simp
  then show ?thesis by (simp add: unsigned_ucast_eq take_bit_nat_eq_self)
qed

lemma chain_bound: "(h :: block_hash) \<le> 100 \<Longrightarrow> unat h \<le> 100"
  by (simp add: word_le_nat_alt)

lemma chain_previous:
  assumes "(1 :: block_hash) \<le> h" "h \<le> 100" "h - 1 \<noteq> 0"
  shows "1 \<le> h - 1" "h - 1 \<le> 100" "unat (h - 1) < unat h"
    "(ucast (h - 1) :: u64) + 1 = ucast h"
proof -
  from assms(1) have nz: "h \<noteq> 0" by auto
  then have u: "unat (h - 1) = unat h - 1" by (rule unat_minus_one)
  from nz have pos: "0 < unat h" by (simp add: unat_gt_0)
  from assms(2) have le: "unat h \<le> 100" by (simp add: word_le_nat_alt)
  from assms(3) have "0 < unat (h - 1)" by (simp add: unat_gt_0)
  then show "1 \<le> h - 1" by (simp add: word_le_nat_alt)
  show l: "h - 1 \<le> 100" using u le by (simp add: word_le_nat_alt)
  show "unat (h - 1) < unat h" using u pos by simp
  have "unat ((ucast (h - 1) :: u64) + 1) = unat (ucast (h - 1) :: u64) + 1"
    using u le by (subst unat_add_lem [THEN iffD1]) (simp_all add: chain_height [OF l])
  also have "\<dots> = unat h" using u pos by (simp add: chain_height [OF l])
  also have "\<dots> = unat (ucast h :: u64)" by (simp add: chain_height [OF assms(2)])
  finally show "(ucast (h - 1) :: u64) + 1 = ucast h" by (simp only: word_unat_eq_iff)
qed

lemma chain_ledger_ok: "ledger_ok chain_env unat 100"
  unfolding ledger_ok_def chain_env_def blk_def Let_def
  by (auto split: if_splits simp: chain_height chain_previous word_less_nat_alt chain_bound)



end
